theory Spec2Isabelle
  imports Main "HOL-Library.Word"
begin

section \<open>Intrusive shared pointer and free list: the memory model\<close>

text \<open>
  The sources are \<^verbatim>\<open>IntrusiveShp.hpp\<close> (control block \<^verbatim>\<open>ShpBase\<close> and handle
  \<^verbatim>\<open>Shp<T>\<close>) and the free-list header (\<^verbatim>\<open>FreeListNode\<close>, \<^verbatim>\<open>FreeListBase\<close>).
  Both files carry two revisions of their text. For \<^verbatim>\<open>IntrusiveShp.hpp\<close> the two
  revisions differ in the assignment operators: lines 144-185 increment the new object
  before they decrement the old one, lines 412-460 decrement first. Both are modelled,
  the second with the suffix \<open>_dec_first\<close>. The two revisions of the free-list header
  have the same function bodies.

  Objects, free lists and handles live in an explicit store, keyed by address, because the
  properties proved below depend on aliasing: several handles hold the address of one
  object, and an assignment may be given the same handle on both sides. A null pointer is \<open>None\<close>.
  The model is sequential: \<^verbatim>\<open>std::atomic\<close> operations are single steps and the mutex
  of the free list is not represented.
\<close>

type_synonym addr = nat
type_synonym ptr = "addr option"

text \<open>
  \<open>BadAlloc\<close> is the \<^verbatim>\<open>std::bad_alloc\<close> thrown by the accessors of a node.
  \<open>Undefined\<close> stands for behaviour that C++ leaves undefined: a null or dangling pointer
  is dereferenced.
\<close>

datatype error = BadAlloc | Undefined

text \<open>The dynamic type of an object decides which \<^verbatim>\<open>unmanage\<close> the virtual call reaches.\<close>

datatype dyn_class = ShpBaseObj | FreeListNodeObj

text \<open>
  \<^verbatim>\<open>std::atomic<int> refcnt_\<close> is a 32-bit counter whose \<^verbatim>\<open>fetch_add\<close> and
  \<^verbatim>\<open>fetch_sub\<close> wrap around. The union \<^verbatim>\<open>u_\<close> of a node is one pointer-sized cell:
  \<^verbatim>\<open>list_\<close> and \<^verbatim>\<open>next_\<close> are two views of the same stored address.
  Member names lose their trailing underscore (\<open>refcnt\<close>, \<open>anchor\<close>, \<open>avail\<close>), and
  \<^verbatim>\<open>u_\<close> is \<open>u_cell\<close>.
\<close>

record object =
  refcnt :: "32 word"
  dyn :: dyn_class
  u_cell :: ptr

record freelist =
  anchor :: ptr
  avail :: "32 word"

text \<open>
  \<open>shps\<close> maps the address of a handle to its member \<^verbatim>\<open>p_\<close>. \<open>unmanaged\<close> is a
  ghost log: every call of the release hook \<^verbatim>\<open>unmanage\<close> appends the address of its
  object.
\<close>

record heap =
  objs :: "addr \<rightharpoonup> object"
  lists :: "addr \<rightharpoonup> freelist"
  shps :: "addr \<rightharpoonup> ptr"
  unmanaged :: "addr list"

section \<open>ShpBase and FreeListNode\<close>

text \<open>\<^verbatim>\<open>long use_count() const { return refcnt_.load(); }\<close>\<close>

definition use_count :: "object \<Rightarrow> int" where
  "use_count ob = sint (refcnt ob)"

text \<open>\<^verbatim>\<open>int incRef() const { return refcnt_.fetch_add(1); }\<close>\<close>

definition incRef :: "addr \<Rightarrow> heap \<Rightarrow> error + (32 word \<times> heap)" where
  "incRef a s =
     (case objs s a of
        None \<Rightarrow> Inl Undefined
      | Some ob \<Rightarrow> Inr (refcnt ob, s\<lparr>objs := (objs s)(a \<mapsto> ob\<lparr>refcnt := refcnt ob + 1\<rparr>)\<rparr>))"

text \<open>
  The accessors of the union, lines 38-68 of the free-list header. Each one throws when
  \<^verbatim>\<open>use_count()\<close> is not zero.
\<close>

definition node_at :: "heap \<Rightarrow> addr \<Rightarrow> object option" where
  "node_at s a =
     (case objs s a of
        None \<Rightarrow> None
      | Some ob \<Rightarrow> (case dyn ob of ShpBaseObj \<Rightarrow> None | FreeListNodeObj \<Rightarrow> Some ob))"

definition "next" :: "addr \<Rightarrow> heap \<Rightarrow> error + ptr" where
  "next a s =
     (case node_at s a of
        None \<Rightarrow> Inl Undefined
      | Some ob \<Rightarrow> if use_count ob \<noteq> 0 then Inl BadAlloc else Inr (u_cell ob))"

definition setNext :: "addr \<Rightarrow> ptr \<Rightarrow> heap \<Rightarrow> error + heap" where
  "setNext a p s =
     (case node_at s a of
        None \<Rightarrow> Inl Undefined
      | Some ob \<Rightarrow>
          if use_count ob \<noteq> 0 then Inl BadAlloc
          else Inr (s\<lparr>objs := (objs s)(a \<mapsto> ob\<lparr>u_cell := p\<rparr>)\<rparr>))"

definition list :: "addr \<Rightarrow> heap \<Rightarrow> error + ptr" where
  "list a s =
     (case node_at s a of
        None \<Rightarrow> Inl Undefined
      | Some ob \<Rightarrow> if use_count ob \<noteq> 0 then Inl BadAlloc else Inr (u_cell ob))"

definition setList :: "addr \<Rightarrow> ptr \<Rightarrow> heap \<Rightarrow> error + heap" where
  "setList a p s =
     (case node_at s a of
        None \<Rightarrow> Inl Undefined
      | Some ob \<Rightarrow>
          if use_count ob \<noteq> 0 then Inl BadAlloc
          else Inr (s\<lparr>objs := (objs s)(a \<mapsto> ob\<lparr>u_cell := p\<rparr>)\<rparr>))"

section \<open>FreeListBase\<close>

text \<open>
  \<^verbatim>\<open>put\<close>, lines 104-110: \<^verbatim>\<open>p->setNext( anchor_ ); anchor_ = p; avail_.fetch_add(1);\<close>
\<close>

definition put :: "addr \<Rightarrow> ptr \<Rightarrow> heap \<Rightarrow> error + heap" where
  "put pl p s =
     (case lists s pl of
        None \<Rightarrow> Inl Undefined
      | Some fl \<Rightarrow>
          (case p of
             None \<Rightarrow> Inl Undefined
           | Some a \<Rightarrow>
               (case setNext a (anchor fl) s of
                  Inl e \<Rightarrow> Inl e
                | Inr s1 \<Rightarrow>
                    Inr (s1\<lparr>lists := (lists s1)(pl \<mapsto> fl\<lparr>anchor := Some a, avail := avail fl + 1\<rparr>)\<rparr>))))"

text \<open>
  \<^verbatim>\<open>getRaw\<close>, lines 87-97:
  \<^verbatim>\<open>auto rv = anchor_; if ( rv ) { anchor_ = rv->next(); rv->setList( this ); avail_.fetch_sub(1); } return rv;\<close>
\<close>

definition getRaw :: "addr \<Rightarrow> heap \<Rightarrow> error + (ptr \<times> heap)" where
  "getRaw pl s =
     (case lists s pl of
        None \<Rightarrow> Inl Undefined
      | Some fl \<Rightarrow>
          (case anchor fl of
             None \<Rightarrow> Inr (None, s)
           | Some a \<Rightarrow>
               (case next a s of
                  Inl e \<Rightarrow> Inl e
                | Inr n \<Rightarrow>
                    (case setList a (Some pl) (s\<lparr>lists := (lists s)(pl \<mapsto> fl\<lparr>anchor := n\<rparr>)\<rparr>) of
                       Inl e \<Rightarrow> Inl e
                     | Inr s2 \<Rightarrow>
                         Inr (Some a,
                              s2\<lparr>lists := (lists s2)(pl \<mapsto> fl\<lparr>anchor := n, avail := avail fl - 1\<rparr>)\<rparr>)))))"

section \<open>The release hook\<close>

text \<open>\<^verbatim>\<open>virtual void unmanage(const Key &) const { delete this; }\<close> of \<^verbatim>\<open>ShpBase\<close>.\<close>

definition ShpBase_unmanage :: "addr \<Rightarrow> heap \<Rightarrow> error + heap" where
  "ShpBase_unmanage a s = Inr (s\<lparr>objs := (objs s)(a := None)\<rparr>)"

text \<open>
  Modelled from the spec: the body of \<^verbatim>\<open>FreeListNode::unmanage\<close> is declared in the
  free-list header (line 72, "unmanage() returns the object to the associated free list")
  but its definition is in none of the source files. The specification says that the specialised hook
  "instructs the owning pool to accept the node back": the node reads its owner with
  \<^verbatim>\<open>list()\<close> and hands itself to that free list's \<^verbatim>\<open>put\<close>.
\<close>

definition FreeListNode_unmanage :: "addr \<Rightarrow> heap \<Rightarrow> error + heap" where
  "FreeListNode_unmanage a s =
     (case list a s of
        Inl e \<Rightarrow> Inl e
      | Inr l \<Rightarrow> (case l of None \<Rightarrow> Inl Undefined | Some pl \<Rightarrow> put pl (Some a) s))"

text \<open>The virtual call, dispatched on the dynamic type; the call is logged.\<close>

definition unmanage :: "addr \<Rightarrow> heap \<Rightarrow> error + heap" where
  "unmanage a s =
     (case objs s a of
        None \<Rightarrow> Inl Undefined
      | Some ob \<Rightarrow>
          (case dyn ob of
             ShpBaseObj \<Rightarrow> ShpBase_unmanage a (s\<lparr>unmanaged := unmanaged s @ [a]\<rparr>)
           | FreeListNodeObj \<Rightarrow> FreeListNode_unmanage a (s\<lparr>unmanaged := unmanaged s @ [a]\<rparr>)))"

text \<open>
  \<^verbatim>\<open>int decRef() const { int rv = refcnt_.fetch_sub(1); if ( 1 == rv ) { unmanage(Key()); } return rv; }\<close>
\<close>

definition decRef :: "addr \<Rightarrow> heap \<Rightarrow> error + (32 word \<times> heap)" where
  "decRef a s =
     (case objs s a of
        None \<Rightarrow> Inl Undefined
      | Some ob \<Rightarrow>
          (let rv = refcnt ob;
               s1 = s\<lparr>objs := (objs s)(a \<mapsto> ob\<lparr>refcnt := rv - 1\<rparr>)\<rparr>
           in if 1 = rv
              then (case unmanage a s1 of Inl e \<Rightarrow> Inl e | Inr s2 \<Rightarrow> Inr (rv, s2))
              else Inr (rv, s1)))"

section \<open>The handle Shp\<close>

text \<open>
  The handle code calls \<^verbatim>\<open>incRef\<close> and \<^verbatim>\<open>decRef\<close> under a null test and drops
  the returned value: \<^verbatim>\<open>if ( p ) { p->incRef(); }\<close> and \<^verbatim>\<open>if ( p ) { p->decRef(); }\<close>.
\<close>

definition discard :: "error + ('a \<times> heap) \<Rightarrow> error + heap" where
  "discard r = (case r of Inl e \<Rightarrow> Inl e | Inr (v, s) \<Rightarrow> Inr s)"

definition incRef_nonnull :: "ptr \<Rightarrow> heap \<Rightarrow> error + heap" where
  "incRef_nonnull p s = (case p of None \<Rightarrow> Inr s | Some a \<Rightarrow> discard (incRef a s))"

definition decRef_nonnull :: "ptr \<Rightarrow> heap \<Rightarrow> error + heap" where
  "decRef_nonnull p s = (case p of None \<Rightarrow> Inr s | Some a \<Rightarrow> discard (decRef a s))"

text \<open>\<^verbatim>\<open>T *get() const { return p_; }\<close>; a handle that is not in the store is dangling.\<close>

definition Shp_get :: "addr \<Rightarrow> heap \<Rightarrow> error + ptr" where
  "Shp_get h s = (case shps s h of None \<Rightarrow> Inl Undefined | Some p \<Rightarrow> Inr p)"

text \<open>\<^verbatim>\<open>Shp() : p_(nullptr) {}\<close> and \<^verbatim>\<open>Shp(T *p) : p_(p) { if ( p_ ) { p_->incRef(); } }\<close>\<close>

definition Shp_default :: "addr \<Rightarrow> heap \<Rightarrow> error + heap" where
  "Shp_default this s = Inr (s\<lparr>shps := (shps s)(this \<mapsto> None)\<rparr>)"

definition Shp_ptr :: "addr \<Rightarrow> ptr \<Rightarrow> heap \<Rightarrow> error + heap" where
  "Shp_ptr this p s = incRef_nonnull p (s\<lparr>shps := (shps s)(this \<mapsto> p)\<rparr>)"

text \<open>
  The two private constructors with the tag argument, lines 98-118: the copying one
  increments, the moving one takes the pointer over and clears the source.
\<close>

definition Shp_copy_tag :: "addr \<Rightarrow> addr \<Rightarrow> heap \<Rightarrow> error + heap" where
  "Shp_copy_tag this rhs s =
     (case Shp_get rhs s of
        Inl e \<Rightarrow> Inl e
      | Inr q \<Rightarrow> incRef_nonnull q (s\<lparr>shps := (shps s)(this \<mapsto> q)\<rparr>))"

definition Shp_move_tag :: "addr \<Rightarrow> addr \<Rightarrow> heap \<Rightarrow> error + heap" where
  "Shp_move_tag this rhs s =
     (case Shp_get rhs s of
        Inl e \<Rightarrow> Inl e
      | Inr q \<Rightarrow> Inr (s\<lparr>shps := (shps s)(this \<mapsto> q, rhs \<mapsto> None)\<rparr>))"

text \<open>
  The public constructors, lines 122-142, all delegate with \<^verbatim>\<open>Shp( rhs, dummy_tag() )\<close>.
  In \<^verbatim>\<open>Shp(Shp &&rhs)\<close> and \<^verbatim>\<open>Shp(Shp<U> &&rhs)\<close> the argument \<^verbatim>\<open>rhs\<close> is a named
  reference and therefore an lvalue. An lvalue does not bind to the parameter
  \<^verbatim>\<open>Shp<U> &&\<close> of the moving tag constructor (it is not a forwarding reference), so
  overload resolution selects \<^verbatim>\<open>Shp(const Shp<U> &, dummy_tag)\<close>: the public move
  constructors run the copying tag constructor. The source has no \<^verbatim>\<open>std::move(rhs)\<close>.
\<close>

definition Shp_copy :: "addr \<Rightarrow> addr \<Rightarrow> heap \<Rightarrow> error + heap" where
  "Shp_copy this rhs s = Shp_copy_tag this rhs s"

definition Shp_move :: "addr \<Rightarrow> addr \<Rightarrow> heap \<Rightarrow> error + heap" where
  "Shp_move this rhs s = Shp_copy_tag this rhs s"

text \<open>
  Copy assignment, lines 144-158:
  \<^verbatim>\<open>auto old = p_; if ( (p_ = rhs.get()) ) { p_->incRef(); } if ( old ) { old->decRef(); }\<close>
\<close>

definition assign_copy_tmpl :: "addr \<Rightarrow> addr \<Rightarrow> heap \<Rightarrow> error + heap" where
  "assign_copy_tmpl this rhs s =
     (case Shp_get this s of
        Inl e \<Rightarrow> Inl e
      | Inr old \<Rightarrow>
          (case Shp_get rhs s of
             Inl e \<Rightarrow> Inl e
           | Inr q \<Rightarrow>
               (case incRef_nonnull q (s\<lparr>shps := (shps s)(this \<mapsto> q)\<rparr>) of
                  Inl e \<Rightarrow> Inl e
                | Inr s1 \<Rightarrow> decRef_nonnull old s1)))"

text \<open>\<^verbatim>\<open>Shp & operator=(const Shp &rhs) { return operator=<T>(rhs); }\<close>, lines 160-163.\<close>

definition assign_copy :: "addr \<Rightarrow> addr \<Rightarrow> heap \<Rightarrow> error + heap" where
  "assign_copy this rhs s = assign_copy_tmpl this rhs s"

text \<open>
  Move assignment as a template, lines 165-180:
  \<^verbatim>\<open>if ( (p = get()) != (p_ = rhs.get()) ) { if ( p ) { p->decRef(); } rhs.p_ = nullptr; }\<close>
  C++ does not fix the order in which the two operands of \<^verbatim>\<open>!=\<close> are evaluated; the
  model takes them from left to right, so that \<^verbatim>\<open>p\<close> is the old pointer. When both
  handles hold the same pointer the order makes no difference.
\<close>

definition assign_move_tmpl :: "addr \<Rightarrow> addr \<Rightarrow> heap \<Rightarrow> error + heap" where
  "assign_move_tmpl this rhs s =
     (case Shp_get this s of
        Inl e \<Rightarrow> Inl e
      | Inr p \<Rightarrow>
          (case Shp_get rhs s of
             Inl e \<Rightarrow> Inl e
           | Inr q \<Rightarrow>
               (let s1 = s\<lparr>shps := (shps s)(this \<mapsto> q)\<rparr>
                in if p \<noteq> q
                   then (case decRef_nonnull p s1 of
                           Inl e \<Rightarrow> Inl e
                         | Inr s2 \<Rightarrow> Inr (s2\<lparr>shps := (shps s2)(rhs \<mapsto> None)\<rparr>))
                   else Inr s1)))"

text \<open>
  \<^verbatim>\<open>Shp & operator=(Shp &&rhs) { return operator=<T>(rhs); }\<close>, lines 182-185. Again
  \<^verbatim>\<open>rhs\<close> is an lvalue inside the body, so \<^verbatim>\<open>operator=<T>(rhs)\<close> resolves to the
  copy assignment template: a move assignment between handles of one type copies.
\<close>

definition assign_move :: "addr \<Rightarrow> addr \<Rightarrow> heap \<Rightarrow> error + heap" where
  "assign_move this rhs s = assign_copy_tmpl this rhs s"

text \<open>
  The other revision of the copy assignment, lines 412-428:
  \<^verbatim>\<open>if ( p_ ) { p_->decRef(); } if ( (p_ = rhs.get()) ) { p_->incRef(); }\<close>
  Its non-template forms, lines 432-435 and 457-460, both call \<^verbatim>\<open>operator=<T>(rhs)\<close>
  with an lvalue and reach it. The move assignment template of that revision, lines
  437-455, names a member \<^verbatim>\<open>rhs.p\<close> that the class does not have and cannot be
  instantiated; it is not modelled.
\<close>

definition assign_copy_tmpl_dec_first :: "addr \<Rightarrow> addr \<Rightarrow> heap \<Rightarrow> error + heap" where
  "assign_copy_tmpl_dec_first this rhs s =
     (case Shp_get this s of
        Inl e \<Rightarrow> Inl e
      | Inr old \<Rightarrow>
          (case decRef_nonnull old s of
             Inl e \<Rightarrow> Inl e
           | Inr s1 \<Rightarrow>
               (case Shp_get rhs s1 of
                  Inl e \<Rightarrow> Inl e
                | Inr q \<Rightarrow> incRef_nonnull q (s1\<lparr>shps := (shps s1)(this \<mapsto> q)\<rparr>))))"

definition assign_copy_dec_first :: "addr \<Rightarrow> addr \<Rightarrow> heap \<Rightarrow> error + heap" where
  "assign_copy_dec_first this rhs s = assign_copy_tmpl_dec_first this rhs s"

definition assign_move_dec_first :: "addr \<Rightarrow> addr \<Rightarrow> heap \<Rightarrow> error + heap" where
  "assign_move_dec_first this rhs s = assign_copy_tmpl_dec_first this rhs s"

text \<open>
  The destructor, lines 187-195: \<^verbatim>\<open>if ( p_ ) { p_->decRef(); }\<close>, after which the
  handle is gone.
\<close>

definition Shp_dtor :: "addr \<Rightarrow> heap \<Rightarrow> error + heap" where
  "Shp_dtor this s =
     (case Shp_get this s of
        Inl e \<Rightarrow> Inl e
      | Inr p \<Rightarrow>
          (case decRef_nonnull p s of
             Inl e \<Rightarrow> Inl e
           | Inr s1 \<Rightarrow> Inr (s1\<lparr>shps := (shps s1)(this := None)\<rparr>)))"

text \<open>
  \<^verbatim>\<open>FreeListBase::get<T>\<close>, lines 126-132 of the free-list header:
  \<^verbatim>\<open>auto p = getRaw(); return Shp<T>(static_cast<T*>( p ));\<close>
  The returned handle is constructed at the address \<open>ret\<close> that the caller provides.
\<close>

definition FreeListBase_get :: "addr \<Rightarrow> addr \<Rightarrow> heap \<Rightarrow> error + heap" where
  "FreeListBase_get pl ret s =
     (case getRaw pl s of
        Inl e \<Rightarrow> Inl e
      | Inr (p, s1) \<Rightarrow> Shp_ptr ret p s1)"

section \<open>Sequences of calls\<close>

text \<open>
  A sequence of \<^verbatim>\<open>incRef\<close> and \<^verbatim>\<open>decRef\<close> calls on one object, run in order; an
  error ends the run.
\<close>

datatype refop = IncRef | DecRef

fun apply_refop :: "addr \<Rightarrow> refop \<Rightarrow> heap \<Rightarrow> error + heap" where
  "apply_refop a IncRef s = discard (incRef a s)"
| "apply_refop a DecRef s = discard (decRef a s)"

fun run_refops :: "addr \<Rightarrow> refop list \<Rightarrow> heap \<Rightarrow> error + heap" where
  "run_refops a [] s = Inr s"
| "run_refops a (x # xs) s =
     (case apply_refop a x s of Inl e \<Rightarrow> Inl e | Inr s' \<Rightarrow> run_refops a xs s')"

text \<open>
  \<open>back_to_zero c ops\<close>: started at the count \<open>c\<close>, the calls \<open>ops\<close> keep the count
  positive until the last of them brings it to 0.
\<close>

fun count_after :: "32 word \<Rightarrow> refop \<Rightarrow> 32 word" where
  "count_after c IncRef = c + 1"
| "count_after c DecRef = c - 1"

fun back_to_zero :: "32 word \<Rightarrow> refop list \<Rightarrow> bool" where
  "back_to_zero c [] = (c = 0)"
| "back_to_zero c (x # xs) = (0 < sint c \<and> back_to_zero (count_after c x) xs)"

text \<open>
  \<open>release_ok s a\<close>: the release hook of the object at \<open>a\<close> can run. The default hook
  always can; the hook of a node needs the union to hold the address of a live free list.
\<close>

definition release_ok :: "heap \<Rightarrow> addr \<Rightarrow> bool" where
  "release_ok s a =
     (case objs s a of
        None \<Rightarrow> False
      | Some ob \<Rightarrow>
          (case dyn ob of
             ShpBaseObj \<Rightarrow> True
           | FreeListNodeObj \<Rightarrow>
               (case u_cell ob of None \<Rightarrow> False | Some pl \<Rightarrow> lists s pl \<noteq> None)))"

text \<open>A sequence of \<^verbatim>\<open>put\<close> and \<^verbatim>\<open>getRaw\<close> calls on one free list.\<close>

datatype poolop = Put addr | GetRaw

fun apply_poolop :: "addr \<Rightarrow> poolop \<Rightarrow> heap \<Rightarrow> error + heap" where
  "apply_poolop pl (Put a) s = put pl (Some a) s"
| "apply_poolop pl GetRaw s = discard (getRaw pl s)"

fun run_poolops :: "addr \<Rightarrow> poolop list \<Rightarrow> heap \<Rightarrow> error + heap" where
  "run_poolops pl [] s = Inr s"
| "run_poolops pl (x # xs) s =
     (case apply_poolop pl x s of Inl e \<Rightarrow> Inl e | Inr s' \<Rightarrow> run_poolops pl xs s')"

text \<open>
  The free chain as a list: \<open>is_chain s p as\<close> holds when following the \<^verbatim>\<open>next_\<close>
  view of the union from \<open>p\<close> visits exactly the nodes \<open>as\<close>, each with count 0, and
  ends at the null pointer.
\<close>

fun is_chain :: "heap \<Rightarrow> ptr \<Rightarrow> addr list \<Rightarrow> bool" where
  "is_chain s p [] = (p = None)"
| "is_chain s p (a # as) =
     (p = Some a \<and>
      (case node_at s a of
         None \<Rightarrow> False
       | Some ob \<Rightarrow> refcnt ob = 0 \<and> is_chain s (u_cell ob) as))"

text \<open>
  The nodes met on a walk along the chain, in order, with fuel \<open>k\<close>; the walk ends at the
  null pointer, at a node it has already met, or at an address that holds no node.
\<close>

fun chain_nodes :: "nat \<Rightarrow> heap \<Rightarrow> ptr \<Rightarrow> addr list \<Rightarrow> addr list" where
  "chain_nodes 0 s p seen = seen"
| "chain_nodes (Suc k) s p seen =
     (case p of
        None \<Rightarrow> seen
      | Some a \<Rightarrow>
          if a \<in> set seen then seen
          else (case node_at s a of
                  None \<Rightarrow> seen
                | Some ob \<Rightarrow> chain_nodes k s (u_cell ob) (seen @ [a])))"

text \<open>
  What the chain holds after a sequence of calls, when it held \<open>as\<close> before, and whether
  every \<^verbatim>\<open>put\<close> of the sequence is given a node that the chain does not hold at that
  moment.
\<close>

fun chain_after :: "addr list \<Rightarrow> poolop list \<Rightarrow> addr list" where
  "chain_after as [] = as"
| "chain_after as (Put a # ops) = chain_after (a # as) ops"
| "chain_after as (GetRaw # ops) = chain_after (tl as) ops"

fun fresh_puts :: "addr list \<Rightarrow> poolop list \<Rightarrow> bool" where
  "fresh_puts as [] = True"
| "fresh_puts as (Put a # ops) = (a \<notin> set as \<and> fresh_puts (a # as) ops)"
| "fresh_puts as (GetRaw # ops) = fresh_puts (tl as) ops"

section \<open>Example stores\<close>

definition plain_obj :: "32 word \<Rightarrow> object" where
  "plain_obj c = \<lparr>refcnt = c, dyn = ShpBaseObj, u_cell = None\<rparr>"

definition node_obj :: "32 word \<Rightarrow> ptr \<Rightarrow> object" where
  "node_obj c p = \<lparr>refcnt = c, dyn = FreeListNodeObj, u_cell = p\<rparr>"

text \<open>\<^verbatim>\<open>FreeListNode *anchor_ {nullptr}; std::atomic<unsigned> avail_{0};\<close>\<close>

definition new_list :: freelist where
  "new_list = \<lparr>anchor = None, avail = 0\<rparr>"

definition mk_heap :: "(addr \<rightharpoonup> object) \<Rightarrow> (addr \<rightharpoonup> freelist) \<Rightarrow> (addr \<rightharpoonup> ptr) \<Rightarrow> heap" where
  "mk_heap os ls hs = \<lparr>objs = os, lists = ls, shps = hs, unmanaged = []\<rparr>"

text \<open>
  One node and two free lists. In \<open>moved_node\<close> the node has been put into the free list
  at 100, taken out of it with \<^verbatim>\<open>getRaw\<close> and put into the free list at 200.
\<close>

definition two_lists :: heap where
  "two_lists = mk_heap [1 \<mapsto> node_obj 0 None] [100 \<mapsto> new_list, 200 \<mapsto> new_list] Map.empty"

definition moved_node :: heap where
  "moved_node = mk_heap [1 \<mapsto> node_obj 0 None]
                  [100 \<mapsto> new_list, 200 \<mapsto> \<lparr>anchor = Some 1, avail = 1\<rparr>] Map.empty"

section \<open>Basic facts\<close>

lemma use_count_zero_iff: "use_count ob = 0 \<longleftrightarrow> refcnt ob = 0"
  by (simp add: use_count_def signed_eq_0_iff)

lemma node_at_objs: "node_at s a = Some ob \<longleftrightarrow> objs s a = Some ob \<and> dyn ob = FreeListNodeObj"
  by (auto simp: node_at_def split: option.splits dyn_class.splits)

lemma put_free_node:
  assumes "lists s pl = Some fl" "node_at s a = Some ob" "refcnt ob = 0"
  shows "put pl (Some a) s =
           Inr (s\<lparr>objs := (objs s)(a \<mapsto> ob\<lparr>u_cell := anchor fl\<rparr>),
                  lists := (lists s)(pl \<mapsto> fl\<lparr>anchor := Some a, avail := avail fl + 1\<rparr>)\<rparr>)"
  using assms by (simp add: put_def setNext_def use_count_zero_iff)

lemma unmanage_plain:
  assumes "objs s a = Some ob" "dyn ob = ShpBaseObj"
  shows "unmanage a s = Inr (s\<lparr>unmanaged := unmanaged s @ [a], objs := (objs s)(a := None)\<rparr>)"
  using assms by (simp add: unmanage_def ShpBase_unmanage_def)

lemma unmanage_node:
  assumes "objs s a = Some ob" "dyn ob = FreeListNodeObj" "refcnt ob = 0"
    "u_cell ob = Some pl" "lists s pl = Some fl"
  shows "unmanage a s =
           Inr (s\<lparr>unmanaged := unmanaged s @ [a],
                  objs := (objs s)(a \<mapsto> ob\<lparr>u_cell := anchor fl\<rparr>),
                  lists := (lists s)(pl \<mapsto> fl\<lparr>anchor := Some a, avail := avail fl + 1\<rparr>)\<rparr>)"
proof -
  let ?s = "s\<lparr>unmanaged := unmanaged s @ [a]\<rparr>"
  have n: "node_at ?s a = Some ob"
    using assms by (simp add: node_at_objs)
  have l: "list a ?s = Inr (Some pl)"
    using assms by (simp add: list_def n use_count_zero_iff)
  have p: "put pl (Some a) ?s =
           Inr (?s\<lparr>objs := (objs ?s)(a \<mapsto> ob\<lparr>u_cell := anchor fl\<rparr>),
                  lists := (lists ?s)(pl \<mapsto> fl\<lparr>anchor := Some a, avail := avail fl + 1\<rparr>)\<rparr>)"
    by (rule put_free_node [OF _ n]) (use assms in simp_all)
  show ?thesis
    using assms by (simp add: unmanage_def FreeListNode_unmanage_def l p)
qed

lemma unmanage_ok:
  assumes "objs s a = Some ob" "refcnt ob = 0" "release_ok s a"
  shows "\<exists>s'. unmanage a s = Inr s' \<and> unmanaged s' = unmanaged s @ [a]
            \<and> shps s' = shps s
            \<and> (\<forall>b. b \<noteq> a \<longrightarrow> objs s' b = objs s b)
            \<and> (\<forall>ob'. objs s' a = Some ob' \<longrightarrow> refcnt ob' = 0)"
proof (cases "dyn ob")
  case ShpBaseObj
  then show ?thesis using assms by (simp add: unmanage_plain)
next
  case FreeListNodeObj
  with assms obtain pl fl where "u_cell ob = Some pl" "lists s pl = Some fl"
    by (auto simp: release_ok_def split: option.splits)
  with FreeListNodeObj assms show ?thesis by (simp add: unmanage_node)
qed

lemma decRef_not_last:
  assumes "objs s a = Some ob" "refcnt ob \<noteq> 1"
  shows "decRef a s = Inr (refcnt ob, s\<lparr>objs := (objs s)(a \<mapsto> ob\<lparr>refcnt := refcnt ob - 1\<rparr>)\<rparr>)"
  using assms by (auto simp: decRef_def Let_def)

lemma decRef_last:
  assumes "objs s a = Some ob" "refcnt ob = 1"
  shows "decRef a s =
           (case unmanage a (s\<lparr>objs := (objs s)(a \<mapsto> ob\<lparr>refcnt := 0\<rparr>)\<rparr>) of
              Inl e \<Rightarrow> Inl e
            | Inr s2 \<Rightarrow> Inr (1, s2))"
  using assms by (simp add: decRef_def Let_def)

lemma unmanage_logs:
  assumes "unmanage a s = Inr s'"
  shows "unmanaged s' = unmanaged s @ [a]"
  using assms
  by (auto simp: unmanage_def ShpBase_unmanage_def FreeListNode_unmanage_def put_def setNext_def
        split: option.splits dyn_class.splits sum.splits if_splits)

lemma release_ok_refcnt:
  assumes "objs s a = Some ob"
  shows "release_ok (s\<lparr>objs := (objs s)(a \<mapsto> ob\<lparr>refcnt := c\<rparr>)\<rparr>) a = release_ok s a"
  using assms by (simp add: release_ok_def split: dyn_class.splits option.splits)

lemma decRef_last_ok:
  assumes "objs s a = Some ob" "refcnt ob = 1" "release_ok s a"
  shows "\<exists>s'. decRef a s = Inr (1, s') \<and> unmanaged s' = unmanaged s @ [a]
            \<and> shps s' = shps s
            \<and> (\<forall>b. b \<noteq> a \<longrightarrow> objs s' b = objs s b)
            \<and> (\<forall>ob'. objs s' a = Some ob' \<longrightarrow> refcnt ob' = 0)"
proof -
  let ?s1 = "s\<lparr>objs := (objs s)(a \<mapsto> ob\<lparr>refcnt := 0\<rparr>)\<rparr>"
  have "release_ok ?s1 a" using assms by (simp add: release_ok_refcnt)
  from unmanage_ok [of ?s1 a "ob\<lparr>refcnt := 0\<rparr>", OF _ _ this]
  obtain s' where "unmanage a ?s1 = Inr s'" "unmanaged s' = unmanaged s @ [a]"
    "shps s' = shps s" "\<forall>b. b \<noteq> a \<longrightarrow> objs s' b = objs s b"
    "\<forall>ob'. objs s' a = Some ob' \<longrightarrow> refcnt ob' = 0"
    by auto
  then show ?thesis using assms by (simp add: decRef_last)
qed

lemma sint_pos_succ_nonzero: "0 < sint (c :: 32 word) \<Longrightarrow> c + 1 \<noteq> 0"
proof
  assume p: "0 < sint c" and z: "c + 1 = 0"
  from z have "c = - 1" by (simp add: add_eq_0_iff2)
  with p show False by simp
qed

lemma run_back_to_zero:
  "objs s a = Some ob \<Longrightarrow> back_to_zero (refcnt ob) ops \<Longrightarrow> 0 < sint (refcnt ob) \<Longrightarrow> release_ok s a \<Longrightarrow>
     \<exists>s'. run_refops a ops s = Inr s' \<and> unmanaged s' = unmanaged s @ [a]"
proof (induction ops arbitrary: s ob)
  case Nil
  then show ?case by simp
next
  case (Cons x ops)
  show ?case
  proof (cases x)
    case IncRef
    let ?ob = "ob\<lparr>refcnt := refcnt ob + 1\<rparr>"
    let ?s1 = "s\<lparr>objs := (objs s)(a \<mapsto> ?ob)\<rparr>"
    have step: "apply_refop a x s = Inr ?s1"
      using Cons.prems(1) IncRef by (simp add: incRef_def discard_def)
    have b: "back_to_zero (refcnt ?ob) ops"
      using Cons.prems(2) IncRef by simp
    have nz: "refcnt ob + 1 \<noteq> 0"
      using Cons.prems(3) by (rule sint_pos_succ_nonzero)
    have pos: "0 < sint (refcnt ?ob)"
      using b nz by (cases ops) simp_all
    have r: "release_ok ?s1 a"
      using Cons.prems by (simp add: release_ok_refcnt)
    from Cons.IH [of ?s1 ?ob, OF _ b pos r]
    show ?thesis by (simp add: step)
  next
    case DecRef
    show ?thesis
    proof (cases "refcnt ob = 1")
      case True
      with Cons.prems(2) DecRef have "ops = []" by (cases ops) simp_all
      moreover from decRef_last_ok [OF Cons.prems(1) True Cons.prems(4)]
      obtain s' where "decRef a s = Inr (1, s')" "unmanaged s' = unmanaged s @ [a]" by auto
      ultimately show ?thesis using DecRef by (simp add: discard_def)
    next
      case False
      let ?ob = "ob\<lparr>refcnt := refcnt ob - 1\<rparr>"
      let ?s1 = "s\<lparr>objs := (objs s)(a \<mapsto> ?ob)\<rparr>"
      have step: "apply_refop a x s = Inr ?s1"
        using Cons.prems(1) False DecRef by (simp add: decRef_not_last discard_def)
      have b: "back_to_zero (refcnt ?ob) ops"
        using Cons.prems(2) DecRef by simp
      have pos: "0 < sint (refcnt ?ob)"
        using b False by (cases ops) simp_all
      have r: "release_ok ?s1 a"
        using Cons.prems by (simp add: release_ok_refcnt)
      from Cons.IH [of ?s1 ?ob, OF _ b pos r]
      show ?thesis by (simp add: step)
    qed
  qed
qed


lemma unmanage_keeps_count:
  assumes "unmanage a s = Inr s'" "objs s a = Some ob" "objs s' a = Some ob'"
  shows "refcnt ob' = refcnt ob"
  using assms
  by (auto simp: unmanage_def ShpBase_unmanage_def FreeListNode_unmanage_def put_def setNext_def
                 node_at_def
        split: option.splits dyn_class.splits sum.splits if_splits)

lemma getRaw_empty:
  assumes "lists s pl = Some fl" "anchor fl = None"
  shows "getRaw pl s = Inr (None, s)"
  using assms by (simp add: getRaw_def)

lemma getRaw_head:
  assumes "lists s pl = Some fl" "anchor fl = Some a" "node_at s a = Some ob" "refcnt ob = 0"
  shows "getRaw pl s =
           Inr (Some a,
                s\<lparr>objs := (objs s)(a \<mapsto> ob\<lparr>u_cell := Some pl\<rparr>),
                  lists := (lists s)(pl \<mapsto> fl\<lparr>anchor := u_cell ob, avail := avail fl - 1\<rparr>)\<rparr>)"
  using assms
  by (simp add: getRaw_def next_def setList_def use_count_zero_iff node_at_def
           split: option.splits dyn_class.splits)

lemma release_ok_frame:
  assumes "objs s' a = objs s a" "lists s' = lists s"
  shows "release_ok s' a = release_ok s a"
  using assms by (simp add: release_ok_def split: option.splits dyn_class.splits)

section \<open>The reference count and the release hook\<close>

text \<open>
  C1. \<^verbatim>\<open>decRef\<close> returns the count it found and leaves the count one lower; it calls
  the release hook exactly when the count it found was 1. It returns whenever the count
  was not 1 or the hook can run. A sequence of \<^verbatim>\<open>incRef\<close> and \<^verbatim>\<open>decRef\<close> calls that
  starts at a positive count and keeps it positive until the last call brings it to 0
  runs to its end and calls the hook exactly once.
\<close>

theorem decRef_release_hook:
  assumes "objs s a = Some ob"
  shows "(\<forall>rv s'. decRef a s = Inr (rv, s') \<longrightarrow>
            rv = refcnt ob
            \<and> unmanaged s' = unmanaged s @ (if refcnt ob = 1 then [a] else [])
            \<and> (\<forall>ob'. objs s' a = Some ob' \<longrightarrow> refcnt ob' = refcnt ob - 1))
       \<and> (refcnt ob \<noteq> 1 \<or> release_ok s a \<longrightarrow> (\<exists>rv s'. decRef a s = Inr (rv, s')))
       \<and> (0 < sint (refcnt ob) \<and> back_to_zero (refcnt ob) ops \<and> release_ok s a \<longrightarrow>
            (\<exists>s'. run_refops a ops s = Inr s' \<and> unmanaged s' = unmanaged s @ [a]))"
proof (intro conjI allI impI)
  fix rv s'
  assume d: "decRef a s = Inr (rv, s')"
  show "rv = refcnt ob"
    using d assms by (auto simp: decRef_def Let_def split: if_splits sum.splits)
  show "unmanaged s' = unmanaged s @ (if refcnt ob = 1 then [a] else [])"
  proof (cases "refcnt ob = 1")
    case True
    with d assms obtain s2 where
      "unmanage a (s\<lparr>objs := (objs s)(a \<mapsto> ob\<lparr>refcnt := 0\<rparr>)\<rparr>) = Inr s2" "s' = s2"
      by (auto simp: decRef_last split: sum.splits)
    then show ?thesis using True by (auto dest: unmanage_logs)
  next
    case False
    with d assms show ?thesis by (auto simp: decRef_not_last)
  qed
  fix ob'
  assume o: "objs s' a = Some ob'"
  show "refcnt ob' = refcnt ob - 1"
  proof (cases "refcnt ob = 1")
    case True
    with d assms have u: "unmanage a (s\<lparr>objs := (objs s)(a \<mapsto> ob\<lparr>refcnt := 0\<rparr>)\<rparr>) = Inr s'"
      by (auto simp: decRef_last split: sum.splits)
    have "refcnt ob' = refcnt (ob\<lparr>refcnt := 0\<rparr>)"
      by (rule unmanage_keeps_count [OF u _ o]) simp
    then show ?thesis using True by simp
  next
    case False
    with d assms o show ?thesis by (auto simp: decRef_not_last)
  qed
next
  assume "refcnt ob \<noteq> 1 \<or> release_ok s a"
  then show "\<exists>rv s'. decRef a s = Inr (rv, s')"
  proof (cases "refcnt ob = 1")
    case True
    assume "refcnt ob \<noteq> 1 \<or> release_ok s a"
    with True have "release_ok s a" by simp
    from decRef_last_ok [OF assms True this] show ?thesis by blast
  next
    case False
    with assms show ?thesis by (simp add: decRef_not_last)
  qed
next
  assume "0 < sint (refcnt ob) \<and> back_to_zero (refcnt ob) ops \<and> release_ok s a"
  then show "\<exists>s'. run_refops a ops s = Inr s' \<and> unmanaged s' = unmanaged s @ [a]"
    using assms run_back_to_zero by blast
qed

theorem decRef_release_hook_witness:
  "decRef 1 (mk_heap [1 \<mapsto> plain_obj 1] Map.empty Map.empty)
     = Inr (1, mk_heap Map.empty Map.empty Map.empty\<lparr>unmanaged := [1]\<rparr>)
   \<and> decRef 1 (mk_heap [1 \<mapsto> plain_obj 2] Map.empty Map.empty)
     = Inr (2, mk_heap [1 \<mapsto> plain_obj 1] Map.empty Map.empty)
   \<and> run_refops 1 [IncRef, DecRef, DecRef, DecRef] (mk_heap [1 \<mapsto> plain_obj 2] Map.empty Map.empty)
     = Inr (mk_heap Map.empty Map.empty Map.empty\<lparr>unmanaged := [1]\<rparr>)
   \<and> (\<exists>rv s'. decRef 1 (mk_heap [1 \<mapsto> plain_obj 1] Map.empty Map.empty) = Inr (rv, s')
            \<and> rv = refcnt (plain_obj 1)
            \<and> unmanaged s' = unmanaged (mk_heap [1 \<mapsto> plain_obj 1] Map.empty Map.empty) @ [1])
   \<and> (\<exists>s'. run_refops 1 [IncRef, DecRef, DecRef, DecRef]
              (mk_heap [1 \<mapsto> plain_obj 2] Map.empty Map.empty) = Inr s'
            \<and> unmanaged s' = unmanaged (mk_heap [1 \<mapsto> plain_obj 2] Map.empty Map.empty) @ [1])"
proof -
  let ?s1 = "mk_heap [1 \<mapsto> plain_obj 1] Map.empty Map.empty"
  let ?s2 = "mk_heap [1 \<mapsto> plain_obj 2] Map.empty Map.empty"
  let ?ops = "[IncRef, DecRef, DecRef, DecRef]"
  have o1: "objs ?s1 1 = Some (plain_obj 1)" and o2: "objs ?s2 1 = Some (plain_obj 2)"
    by (simp_all add: mk_heap_def)
  have c1: "refcnt (plain_obj 1) = 1"
    by (simp add: plain_obj_def)
  have k1: "release_ok ?s1 1"
    by (simp add: plain_obj_def release_ok_def mk_heap_def)
  have h2: "0 < sint (refcnt (plain_obj 2)) \<and> back_to_zero (refcnt (plain_obj 2)) ?ops
            \<and> release_ok ?s2 1"
    by (simp add: plain_obj_def release_ok_def mk_heap_def)
  have d1: "decRef 1 ?s1 = Inr (1, mk_heap Map.empty Map.empty Map.empty\<lparr>unmanaged := [1]\<rparr>)"
    by (simp add: mk_heap_def plain_obj_def decRef_def unmanage_def ShpBase_unmanage_def)
  have d2: "decRef 1 ?s2 = Inr (2, mk_heap [1 \<mapsto> plain_obj 1] Map.empty Map.empty)"
    by (simp add: mk_heap_def plain_obj_def decRef_def)
  have r: "run_refops 1 ?ops ?s2 = Inr (mk_heap Map.empty Map.empty Map.empty\<lparr>unmanaged := [1]\<rparr>)"
    by (simp add: mk_heap_def plain_obj_def incRef_def decRef_def discard_def unmanage_def
          ShpBase_unmanage_def)
  note t1 = decRef_release_hook [OF o1, of ?ops]
  note t2 = decRef_release_hook [OF o2, of ?ops]
  from t1 k1 obtain rv s' where e: "decRef 1 ?s1 = Inr (rv, s')"
    by blast
  with t1 c1 have "rv = refcnt (plain_obj 1) \<and> unmanaged s' = unmanaged ?s1 @ [1]"
    by simp
  with e have a: "\<exists>rv s'. decRef 1 ?s1 = Inr (rv, s') \<and> rv = refcnt (plain_obj 1)
                    \<and> unmanaged s' = unmanaged ?s1 @ [1]"
    by blast
  from t2 h2 have b: "\<exists>s'. run_refops 1 ?ops ?s2 = Inr s' \<and> unmanaged s' = unmanaged ?s2 @ [1]"
    by blast
  from d1 d2 r a b show ?thesis by blast
qed

section \<open>Assignment and move of handles\<close>

text \<open>
  The copy assignment of lines 144-158 increments before it decrements: assigning a handle
  to itself changes nothing, for an empty handle and for any count other than 0.
\<close>

lemma self_assign_inc_first:
  assumes "shps s h = Some p"
    "p = None \<or> (\<exists>a ob. p = Some a \<and> objs s a = Some ob \<and> refcnt ob \<noteq> 0)"
  shows "assign_copy h h s = Inr s"
proof (cases p)
  case None
  have "s\<lparr>shps := (shps s)(h \<mapsto> None)\<rparr> = s"
    using assms(1) None by (simp add: map_upd_triv)
  then show ?thesis
    using assms(1) None
    by (simp add: assign_copy_def assign_copy_tmpl_def Shp_get_def incRef_nonnull_def
          decRef_nonnull_def)
next
  case (Some a)
  with assms(2) obtain ob where o: "objs s a = Some ob" "refcnt ob \<noteq> 0" by auto
  let ?s1 = "s\<lparr>shps := (shps s)(h \<mapsto> Some a), objs := (objs s)(a \<mapsto> ob\<lparr>refcnt := refcnt ob + 1\<rparr>)\<rparr>"
  have i: "incRef_nonnull (Some a) (s\<lparr>shps := (shps s)(h \<mapsto> Some a)\<rparr>) = Inr ?s1"
    using o by (simp add: incRef_nonnull_def incRef_def discard_def)
  have same: "?s1\<lparr>objs := (objs ?s1)(a \<mapsto> ob\<lparr>refcnt := refcnt ob + 1\<rparr>\<lparr>refcnt := refcnt ob + 1 - 1\<rparr>)\<rparr> = s"
    using o assms(1) Some by (simp add: map_upd_triv)
  have d: "decRef a ?s1 = Inr (refcnt ob + 1, s)"
    using decRef_not_last [of ?s1 a "ob\<lparr>refcnt := refcnt ob + 1\<rparr>"] o same by simp
  show ?thesis
    using assms(1) Some i d
    by (simp add: assign_copy_def assign_copy_tmpl_def Shp_get_def decRef_nonnull_def discard_def)
qed

text \<open>
  C2. The copy assignment of lines 412-428 decrements first. Assigning a handle to itself
  when it is the only owner (count 1) therefore calls the release hook: the default hook
  deletes the object, and the following \<^verbatim>\<open>incRef\<close> reaches a deleted object; the hook
  of a node puts the node into its free list while the handle goes on holding it.
\<close>

theorem self_assign_dec_first_releases:
  "decRef 1 (mk_heap [1 \<mapsto> plain_obj 1] Map.empty [10 \<mapsto> Some 1])
     = Inr (1, mk_heap Map.empty Map.empty [10 \<mapsto> Some 1]\<lparr>unmanaged := [1]\<rparr>)
   \<and> assign_copy_dec_first 10 10 (mk_heap [1 \<mapsto> plain_obj 1] Map.empty [10 \<mapsto> Some 1])
       = Inl Undefined
   \<and> assign_copy_dec_first 10 10
         (mk_heap [1 \<mapsto> node_obj 1 (Some 100)] [100 \<mapsto> new_list] [10 \<mapsto> Some 1])
       = Inr (mk_heap [1 \<mapsto> node_obj 1 None] [100 \<mapsto> \<lparr>anchor = Some 1, avail = 1\<rparr>]
                [10 \<mapsto> Some 1]\<lparr>unmanaged := [1]\<rparr>)"
  by (simp add: mk_heap_def plain_obj_def node_obj_def new_list_def
        assign_copy_dec_first_def assign_copy_tmpl_dec_first_def Shp_get_def
        decRef_nonnull_def incRef_nonnull_def decRef_def incRef_def discard_def
        unmanage_def ShpBase_unmanage_def FreeListNode_unmanage_def list_def put_def
        setNext_def node_at_def use_count_def)

text \<open>
  C3. The public move constructor and the move assignment between handles of one type
  pass their named argument on as an lvalue and so run the copying code: the count goes
  from 1 to 2 and the source handle keeps its pointer.
\<close>

theorem move_ctor_copies:
  "Shp_move 20 10 (mk_heap [1 \<mapsto> plain_obj 1] Map.empty [10 \<mapsto> Some 1])
     = Inr (mk_heap [1 \<mapsto> plain_obj 2] Map.empty [10 \<mapsto> Some 1, 20 \<mapsto> Some 1])
   \<and> assign_move 20 10 (mk_heap [1 \<mapsto> plain_obj 1] Map.empty [10 \<mapsto> Some 1, 20 \<mapsto> None])
       = Inr (mk_heap [1 \<mapsto> plain_obj 2] Map.empty [10 \<mapsto> Some 1, 20 \<mapsto> Some 1])"
  by (simp add: mk_heap_def plain_obj_def Shp_move_def Shp_copy_tag_def assign_move_def
        assign_copy_tmpl_def Shp_get_def incRef_nonnull_def decRef_nonnull_def incRef_def
        discard_def)

text \<open>
  The private moving constructor and the move assignment template do transfer the share:
  the count is untouched and the source is left empty.
\<close>

lemma Shp_move_tag_transfers:
  assumes "shps s h = Some (Some a)" "g \<noteq> h"
  shows "Shp_move_tag g h s = Inr (s\<lparr>shps := (shps s)(g \<mapsto> Some a, h \<mapsto> None)\<rparr>)"
  using assms by (simp add: Shp_move_tag_def Shp_get_def)

lemma assign_move_tmpl_into_empty:
  assumes "shps s h = Some (Some a)" "shps s g = Some None"
  shows "assign_move_tmpl g h s = Inr (s\<lparr>shps := (shps s)(g \<mapsto> Some a, h \<mapsto> None)\<rparr>)"
  using assms by (simp add: assign_move_tmpl_def Shp_get_def decRef_nonnull_def)

lemma sint_gt_one: "1 < sint (c :: 32 word) \<Longrightarrow> c \<noteq> 0 \<and> c \<noteq> 1"
  by auto

text \<open>
  The copy assignment that decrements first also changes nothing when the handle already
  holds the pointer it is given and the count is neither 0 nor 1.
\<close>

lemma assign_same_dec_first:
  assumes "shps s h1 = Some (Some a)" "shps s h2 = Some (Some a)" "objs s a = Some ob"
    "refcnt ob \<noteq> 1"
  shows "assign_copy_tmpl_dec_first h1 h2 s = Inr s"
proof -
  let ?s1 = "s\<lparr>objs := (objs s)(a \<mapsto> ob\<lparr>refcnt := refcnt ob - 1\<rparr>)\<rparr>"
  have d: "decRef a s = Inr (refcnt ob, ?s1)"
    using assms by (simp add: decRef_not_last)
  have same: "?s1\<lparr>shps := (shps ?s1)(h1 \<mapsto> Some a),
                  objs := (objs ?s1)(a \<mapsto> ob\<lparr>refcnt := refcnt ob - 1\<rparr>\<lparr>refcnt := refcnt ob - 1 + 1\<rparr>)\<rparr> = s"
    using assms by (simp add: map_upd_triv)
  show ?thesis
    using assms d same
    by (simp add: assign_copy_tmpl_dec_first_def Shp_get_def decRef_nonnull_def
          incRef_nonnull_def incRef_def discard_def)
qed

lemma assign_same_inc_first:
  assumes "shps s h1 = Some (Some a)" "shps s h2 = Some (Some a)" "objs s a = Some ob"
    "refcnt ob \<noteq> 0"
  shows "assign_copy_tmpl h1 h2 s = Inr s"
proof -
  let ?s1 = "s\<lparr>shps := (shps s)(h1 \<mapsto> Some a), objs := (objs s)(a \<mapsto> ob\<lparr>refcnt := refcnt ob + 1\<rparr>)\<rparr>"
  have i: "incRef_nonnull (Some a) (s\<lparr>shps := (shps s)(h1 \<mapsto> Some a)\<rparr>) = Inr ?s1"
    using assms by (simp add: incRef_nonnull_def incRef_def discard_def)
  have same: "?s1\<lparr>objs := (objs ?s1)(a \<mapsto> ob\<lparr>refcnt := refcnt ob + 1\<rparr>\<lparr>refcnt := refcnt ob + 1 - 1\<rparr>)\<rparr> = s"
    using assms by (simp add: map_upd_triv)
  have d: "decRef a ?s1 = Inr (refcnt ob + 1, s)"
    using decRef_not_last [of ?s1 a "ob\<lparr>refcnt := refcnt ob + 1\<rparr>"] assms same by simp
  show ?thesis
    using assms i d
    by (simp add: assign_copy_tmpl_def Shp_get_def decRef_nonnull_def discard_def)
qed

text \<open>
  C4 (as amended). When two handles hold the same object, whose count is then at least 2,
  the move assignment of one to the other changes nothing: the count stays, the release
  hook is not called, and the source handle is not emptied, it goes on holding the object.
  This is so for the move assignment template (lines 165-180, "no-op if both are nullptr
  or both reference the same object"), for the move assignment between handles of one type
  (lines 182-185) and for that of the other revision (lines 457-460).
\<close>

theorem move_assign_same_object:
  assumes "shps s h1 = Some (Some a)" "shps s h2 = Some (Some a)" "objs s a = Some ob"
    "1 < sint (refcnt ob)"
  shows "assign_move_tmpl h1 h2 s = Inr s
       \<and> assign_move h1 h2 s = Inr s
       \<and> assign_move_dec_first h1 h2 s = Inr s"
proof (intro conjI)
  have c: "refcnt ob \<noteq> 0" "refcnt ob \<noteq> 1"
    using assms(4) sint_gt_one by blast+
  have "s\<lparr>shps := (shps s)(h1 \<mapsto> Some a)\<rparr> = s"
    using assms(1) by (simp add: map_upd_triv)
  then show "assign_move_tmpl h1 h2 s = Inr s"
    using assms by (simp add: assign_move_tmpl_def Shp_get_def)
  show "assign_move h1 h2 s = Inr s"
    unfolding assign_move_def using assms(1-3) c(1) by (rule assign_same_inc_first)
  show "assign_move_dec_first h1 h2 s = Inr s"
    unfolding assign_move_dec_first_def using assms(1-3) c(2) by (rule assign_same_dec_first)
qed

theorem move_assign_same_object_witness:
  "assign_move_tmpl 10 20 (mk_heap [1 \<mapsto> plain_obj 2] Map.empty [10 \<mapsto> Some 1, 20 \<mapsto> Some 1])
     = Inr (mk_heap [1 \<mapsto> plain_obj 2] Map.empty [10 \<mapsto> Some 1, 20 \<mapsto> Some 1])
   \<and> assign_move 10 20 (mk_heap [1 \<mapsto> plain_obj 2] Map.empty [10 \<mapsto> Some 1, 20 \<mapsto> Some 1])
     = Inr (mk_heap [1 \<mapsto> plain_obj 2] Map.empty [10 \<mapsto> Some 1, 20 \<mapsto> Some 1])
   \<and> assign_move_dec_first 10 20 (mk_heap [1 \<mapsto> plain_obj 2] Map.empty [10 \<mapsto> Some 1, 20 \<mapsto> Some 1])
     = Inr (mk_heap [1 \<mapsto> plain_obj 2] Map.empty [10 \<mapsto> Some 1, 20 \<mapsto> Some 1])"
proof -
  let ?s = "mk_heap [1 \<mapsto> plain_obj 2] Map.empty [10 \<mapsto> Some 1, 20 \<mapsto> Some 1]"
  have h1: "shps ?s 10 = Some (Some 1)" and h2: "shps ?s 20 = Some (Some 1)"
    and o: "objs ?s 1 = Some (plain_obj 2)"
    by (simp_all add: mk_heap_def)
  have c: "1 < sint (refcnt (plain_obj 2))"
    by (simp add: plain_obj_def)
  show ?thesis
    by (rule move_assign_same_object [OF h1 h2 o c])
qed

theorem move_assign_same_object_counterexample:
  "\<not> (case assign_move_tmpl 10 20
              (mk_heap [1 \<mapsto> plain_obj 2] Map.empty [10 \<mapsto> Some 1, 20 \<mapsto> Some 1]) of
        Inl e \<Rightarrow> False
      | Inr s' \<Rightarrow> map_option refcnt (objs s' 1) = Some 2 \<and> shps s' 20 = Some None)
   \<and> \<not> (case assign_move 10 20
              (mk_heap [1 \<mapsto> plain_obj 2] Map.empty [10 \<mapsto> Some 1, 20 \<mapsto> Some 1]) of
        Inl e \<Rightarrow> False
      | Inr s' \<Rightarrow> map_option refcnt (objs s' 1) = Some 2 \<and> shps s' 20 = Some None)"
  by (simp add: mk_heap_def plain_obj_def assign_move_tmpl_def assign_move_def
        assign_copy_tmpl_def Shp_get_def incRef_nonnull_def decRef_nonnull_def incRef_def
        decRef_def discard_def)

text \<open>
  C5. Handle \<open>h1\<close> is the only owner of object \<open>A\<close> (count 1) and \<open>h2\<close> holds another
  object \<open>B\<close>. The copy assignment \<^verbatim>\<open>h1 = h2\<close> returns, with \<open>h1\<close> holding \<open>B\<close>, the
  count of \<open>B\<close> one higher, and exactly one call of the release hook, for \<open>A\<close>; if \<open>A\<close>
  still exists afterwards (its hook did not delete it), its count is 0. Both revisions of
  the operator do this.
\<close>

theorem copy_assign_releases_old:
  assumes "shps s h1 = Some (Some A)" "shps s h2 = Some (Some B)" "A \<noteq> B"
    "objs s A = Some oa" "refcnt oa = 1" "objs s B = Some ob" "release_ok s A"
  shows "(\<exists>s'. assign_copy h1 h2 s = Inr s'
               \<and> shps s' h1 = Some (Some B)
               \<and> map_option refcnt (objs s' B) = Some (refcnt ob + 1)
               \<and> unmanaged s' = unmanaged s @ [A]
               \<and> (\<forall>oa'. objs s' A = Some oa' \<longrightarrow> refcnt oa' = 0))
       \<and> (\<exists>s'. assign_copy_dec_first h1 h2 s = Inr s'
               \<and> shps s' h1 = Some (Some B)
               \<and> map_option refcnt (objs s' B) = Some (refcnt ob + 1)
               \<and> unmanaged s' = unmanaged s @ [A]
               \<and> (\<forall>oa'. objs s' A = Some oa' \<longrightarrow> refcnt oa' = 0))"
proof (intro conjI)
  let ?s1 = "s\<lparr>shps := (shps s)(h1 \<mapsto> Some B),
                objs := (objs s)(B \<mapsto> ob\<lparr>refcnt := refcnt ob + 1\<rparr>)\<rparr>"
  have i: "incRef_nonnull (Some B) (s\<lparr>shps := (shps s)(h1 \<mapsto> Some B)\<rparr>) = Inr ?s1"
    using assms(6) by (simp add: incRef_nonnull_def incRef_def discard_def)
  have oa1: "objs ?s1 A = Some oa"
    using assms(3,4) by simp
  have r1: "release_ok ?s1 A"
    using assms(3,7) release_ok_frame [of ?s1 A s] by simp
  from decRef_last_ok [OF oa1 assms(5) r1]
  obtain s' where s': "decRef A ?s1 = Inr (1, s')" "unmanaged s' = unmanaged ?s1 @ [A]"
    "shps s' = shps ?s1" "\<forall>b. b \<noteq> A \<longrightarrow> objs s' b = objs ?s1 b"
    "\<forall>ob'. objs s' A = Some ob' \<longrightarrow> refcnt ob' = 0"
    by blast
  have "assign_copy h1 h2 s = Inr s'"
    using assms(1,2) i s'(1)
    by (simp add: assign_copy_def assign_copy_tmpl_def Shp_get_def decRef_nonnull_def discard_def)
  moreover have "objs s' B = Some (ob\<lparr>refcnt := refcnt ob + 1\<rparr>)"
    using s'(4) assms(3) by simp
  ultimately show "\<exists>s'. assign_copy h1 h2 s = Inr s'
               \<and> shps s' h1 = Some (Some B)
               \<and> map_option refcnt (objs s' B) = Some (refcnt ob + 1)
               \<and> unmanaged s' = unmanaged s @ [A]
               \<and> (\<forall>oa'. objs s' A = Some oa' \<longrightarrow> refcnt oa' = 0)"
    using s'(2,3,5) by simp
next
  from decRef_last_ok [OF assms(4,5,7)]
  obtain s1 where s1: "decRef A s = Inr (1, s1)" "unmanaged s1 = unmanaged s @ [A]"
    "shps s1 = shps s" "\<forall>b. b \<noteq> A \<longrightarrow> objs s1 b = objs s b"
    "\<forall>ob'. objs s1 A = Some ob' \<longrightarrow> refcnt ob' = 0"
    by blast
  let ?s2 = "s1\<lparr>shps := (shps s1)(h1 \<mapsto> Some B),
                 objs := (objs s1)(B \<mapsto> ob\<lparr>refcnt := refcnt ob + 1\<rparr>)\<rparr>"
  have ob1: "objs s1 B = Some ob"
    using s1(4) assms(3,6) by simp
  have i: "incRef_nonnull (Some B) (s1\<lparr>shps := (shps s1)(h1 \<mapsto> Some B)\<rparr>) = Inr ?s2"
    using ob1 by (simp add: incRef_nonnull_def incRef_def discard_def)
  have "assign_copy_dec_first h1 h2 s = Inr ?s2"
    using assms(1,2) s1(1,3) i
    by (simp add: assign_copy_dec_first_def assign_copy_tmpl_dec_first_def Shp_get_def
          decRef_nonnull_def discard_def)
  then show "\<exists>s'. assign_copy_dec_first h1 h2 s = Inr s'
               \<and> shps s' h1 = Some (Some B)
               \<and> map_option refcnt (objs s' B) = Some (refcnt ob + 1)
               \<and> unmanaged s' = unmanaged s @ [A]
               \<and> (\<forall>oa'. objs s' A = Some oa' \<longrightarrow> refcnt oa' = 0)"
    using s1(2,5) assms(3) by simp
qed

theorem copy_assign_releases_old_witness:
  "assign_copy 10 20 (mk_heap [1 \<mapsto> plain_obj 1, 2 \<mapsto> plain_obj 1] Map.empty
                        [10 \<mapsto> Some 1, 20 \<mapsto> Some 2])
     = Inr (mk_heap [2 \<mapsto> plain_obj 2] Map.empty [10 \<mapsto> Some 2, 20 \<mapsto> Some 2]
              \<lparr>unmanaged := [1]\<rparr>)
   \<and> (\<exists>s'. assign_copy 10 20 (mk_heap [1 \<mapsto> plain_obj 1, 2 \<mapsto> plain_obj 1] Map.empty
                                 [10 \<mapsto> Some 1, 20 \<mapsto> Some 2]) = Inr s'
            \<and> shps s' 10 = Some (Some 2)
            \<and> map_option refcnt (objs s' 2) = Some (refcnt (plain_obj 1) + 1)
            \<and> unmanaged s' = [1])"
proof -
  let ?s = "mk_heap [1 \<mapsto> plain_obj 1, 2 \<mapsto> plain_obj 1] Map.empty [10 \<mapsto> Some 1, 20 \<mapsto> Some 2]"
  have h1: "shps ?s 10 = Some (Some 1)" and h2: "shps ?s 20 = Some (Some 2)"
    and oa: "objs ?s 1 = Some (plain_obj 1)" and ob: "objs ?s 2 = Some (plain_obj 1)"
    by (simp_all add: mk_heap_def)
  have ne: "(1::nat) \<noteq> 2" by simp
  have c: "refcnt (plain_obj 1) = 1" by (simp add: plain_obj_def)
  have r: "release_ok ?s 1" by (simp add: release_ok_def mk_heap_def plain_obj_def)
  have u: "unmanaged ?s = []" by (simp add: mk_heap_def)
  have e: "assign_copy 10 20 ?s
     = Inr (mk_heap [2 \<mapsto> plain_obj 2] Map.empty [10 \<mapsto> Some 2, 20 \<mapsto> Some 2]
              \<lparr>unmanaged := [1]\<rparr>)"
    by (simp add: mk_heap_def plain_obj_def assign_copy_def assign_copy_tmpl_def Shp_get_def
          incRef_nonnull_def decRef_nonnull_def incRef_def decRef_def discard_def unmanage_def
          ShpBase_unmanage_def fun_upd_twist)
  from copy_assign_releases_old [OF h1 h2 ne oa c ob r] u
  have "\<exists>s'. assign_copy 10 20 ?s = Inr s'
            \<and> shps s' 10 = Some (Some 2)
            \<and> map_option refcnt (objs s' 2) = Some (refcnt (plain_obj 1) + 1)
            \<and> unmanaged s' = [1]"
    by auto
  with e show ?thesis by blast
qed

section \<open>The free list\<close>

text \<open>
  C6 (as amended). For a node with count 0, \<^verbatim>\<open>put\<close> stores the old head of the chain
  in the node's union, makes the node the new head and adds one to \<^verbatim>\<open>avail_\<close>. The
  union then holds the link to the next node, in both of its views: \<^verbatim>\<open>put\<close> does not
  record the free list in the node. The owner is written by \<^verbatim>\<open>getRaw\<close> when the node
  is checked out.
\<close>

theorem put_links_head:
  assumes "lists s pl = Some fl" "node_at s a = Some ob" "refcnt ob = 0"
  shows "case put pl (Some a) s of
           Inl e \<Rightarrow> False
         | Inr s' \<Rightarrow>
             next a s' = Inr (anchor fl) \<and> list a s' = Inr (anchor fl)
             \<and> map_option anchor (lists s' pl) = Some (Some a)
             \<and> map_option avail (lists s' pl) = Some (avail fl + 1)
             \<and> map_option refcnt (objs s' a) = Some 0"
proof -
  let ?s1 = "s\<lparr>objs := (objs s)(a \<mapsto> ob\<lparr>u_cell := anchor fl\<rparr>),
                lists := (lists s)(pl \<mapsto> fl\<lparr>anchor := Some a, avail := avail fl + 1\<rparr>)\<rparr>"
  have p: "put pl (Some a) s = Inr ?s1"
    using assms by (rule put_free_node)
  have n: "node_at ?s1 a = Some (ob\<lparr>u_cell := anchor fl\<rparr>)"
    using assms by (simp add: node_at_objs)
  show ?thesis
    using assms(3) by (simp add: p next_def list_def n use_count_zero_iff)
qed

theorem put_links_head_witness:
  "case put 100 (Some 1) (mk_heap [1 \<mapsto> node_obj 0 None, 2 \<mapsto> node_obj 0 None]
                            [100 \<mapsto> \<lparr>anchor = Some 2, avail = 1\<rparr>] Map.empty) of
     Inl e \<Rightarrow> False
   | Inr s' \<Rightarrow>
       next 1 s' = Inr (Some 2) \<and> list 1 s' = Inr (Some 2)
       \<and> map_option anchor (lists s' 100) = Some (Some 1)
       \<and> map_option avail (lists s' 100) = Some 2
       \<and> map_option refcnt (objs s' 1) = Some 0"
proof -
  let ?s = "mk_heap [1 \<mapsto> node_obj 0 None, 2 \<mapsto> node_obj 0 None]
              [100 \<mapsto> \<lparr>anchor = Some 2, avail = 1\<rparr>] Map.empty"
  have l: "lists ?s 100 = Some \<lparr>anchor = Some 2, avail = 1\<rparr>"
    by (simp add: mk_heap_def)
  have n: "node_at ?s 1 = Some (node_obj 0 None)"
    by (simp add: node_at_def mk_heap_def node_obj_def)
  have c: "refcnt (node_obj 0 None) = 0"
    by (simp add: node_obj_def)
  from put_links_head [OF l n c] show ?thesis by (simp split: sum.splits)
qed

theorem put_records_owner_counterexample:
  "\<not> (case put 100 (Some 1) (mk_heap [1 \<mapsto> node_obj 0 None] [100 \<mapsto> new_list] Map.empty) of
        Inl e \<Rightarrow> False
      | Inr s' \<Rightarrow> list 1 s' = Inr (Some 100))"
  by (simp add: put_def setNext_def list_def node_at_def use_count_def mk_heap_def node_obj_def
        new_list_def)

text \<open>
  C7. A node with count 0 that is \<^verbatim>\<open>put\<close> into a free list comes back from the next
  \<^verbatim>\<open>get<T>()\<close>: the returned handle holds the node's address and the node's count is 1.
  On a free list whose chain is empty \<^verbatim>\<open>get<T>()\<close> returns an empty handle.
\<close>

theorem pool_round_trip:
  "(lists s pl = Some fl \<and> node_at s a = Some ob \<and> refcnt ob = 0 \<longrightarrow>
      (case put pl (Some a) s of
         Inl e \<Rightarrow> False
       | Inr s1 \<Rightarrow>
           (case FreeListBase_get pl ret s1 of
              Inl e \<Rightarrow> False
            | Inr s2 \<Rightarrow> shps s2 ret = Some (Some a) \<and> map_option refcnt (objs s2 a) = Some 1)))
   \<and> (lists t pl = Some fl \<and> anchor fl = None \<longrightarrow>
        FreeListBase_get pl ret t = Inr (t\<lparr>shps := (shps t)(ret \<mapsto> None)\<rparr>))"
proof (intro conjI impI)
  assume h: "lists s pl = Some fl \<and> node_at s a = Some ob \<and> refcnt ob = 0"
  let ?s1 = "s\<lparr>objs := (objs s)(a \<mapsto> ob\<lparr>u_cell := anchor fl\<rparr>),
                lists := (lists s)(pl \<mapsto> fl\<lparr>anchor := Some a, avail := avail fl + 1\<rparr>)\<rparr>"
  have p: "put pl (Some a) s = Inr ?s1"
    using h by (simp add: put_free_node)
  have n: "node_at ?s1 a = Some (ob\<lparr>u_cell := anchor fl\<rparr>)"
    using h by (simp add: node_at_objs)
  have g: "getRaw pl ?s1 =
      Inr (Some a,
           ?s1\<lparr>objs := (objs ?s1)(a \<mapsto> ob\<lparr>u_cell := anchor fl\<rparr>\<lparr>u_cell := Some pl\<rparr>),
                lists := (lists ?s1)(pl \<mapsto> fl\<lparr>anchor := Some a, avail := avail fl + 1\<rparr>
                           \<lparr>anchor := u_cell (ob\<lparr>u_cell := anchor fl\<rparr>),
                            avail := avail (fl\<lparr>anchor := Some a, avail := avail fl + 1\<rparr>) - 1\<rparr>)\<rparr>)"
    by (rule getRaw_head [OF _ _ n]) (use h in simp_all)
  show "case put pl (Some a) s of
         Inl e \<Rightarrow> False
       | Inr s1 \<Rightarrow>
           (case FreeListBase_get pl ret s1 of
              Inl e \<Rightarrow> False
            | Inr s2 \<Rightarrow> shps s2 ret = Some (Some a) \<and> map_option refcnt (objs s2 a) = Some 1)"
    using h
    by (simp add: p FreeListBase_get_def g Shp_ptr_def incRef_nonnull_def incRef_def discard_def)
next
  assume "lists t pl = Some fl \<and> anchor fl = None"
  then show "FreeListBase_get pl ret t = Inr (t\<lparr>shps := (shps t)(ret \<mapsto> None)\<rparr>)"
    by (simp add: FreeListBase_get_def getRaw_empty Shp_ptr_def incRef_nonnull_def)
qed

theorem pool_round_trip_witness:
  "(case put 100 (Some 1) (mk_heap [1 \<mapsto> node_obj 0 None] [100 \<mapsto> new_list] Map.empty) of
      Inl e \<Rightarrow> False
    | Inr s1 \<Rightarrow>
        (case FreeListBase_get 100 10 s1 of
           Inl e \<Rightarrow> False
         | Inr s2 \<Rightarrow> shps s2 10 = Some (Some 1) \<and> map_option refcnt (objs s2 1) = Some 1))
   \<and> FreeListBase_get 100 10 (mk_heap [1 \<mapsto> node_obj 0 None] [100 \<mapsto> new_list] Map.empty)
       = Inr (mk_heap [1 \<mapsto> node_obj 0 None] [100 \<mapsto> new_list] [10 \<mapsto> None])"
proof -
  let ?s = "mk_heap [1 \<mapsto> node_obj 0 None] [100 \<mapsto> new_list] Map.empty"
  have h: "lists ?s 100 = Some new_list \<and> node_at ?s 1 = Some (node_obj 0 None)
           \<and> refcnt (node_obj 0 None) = 0"
    by (simp add: mk_heap_def node_at_def node_obj_def)
  have e: "lists ?s 100 = Some new_list \<and> anchor new_list = None"
    by (simp add: mk_heap_def new_list_def)
  from pool_round_trip [of ?s 100 new_list 1 "node_obj 0 None" 10 ?s] h e
  show ?thesis by (simp add: mk_heap_def split: sum.splits)
qed

text \<open>
  C8. On a node whose count is greater than 0, each of \<^verbatim>\<open>next\<close>, \<^verbatim>\<open>setNext\<close>,
  \<^verbatim>\<open>list\<close> and \<^verbatim>\<open>setList\<close> throws \<^verbatim>\<open>std::bad_alloc\<close>; on a node whose count
  is 0 the getters return the stored pointer and the setters store theirs.
\<close>

theorem accessors_precondition:
  assumes "node_at s a = Some ob"
  shows "(0 < use_count ob \<longrightarrow>
            next a s = Inl BadAlloc \<and> setNext a p s = Inl BadAlloc
            \<and> list a s = Inl BadAlloc \<and> setList a q s = Inl BadAlloc)
       \<and> (use_count ob = 0 \<longrightarrow>
            next a s = Inr (u_cell ob)
            \<and> setNext a p s = Inr (s\<lparr>objs := (objs s)(a \<mapsto> ob\<lparr>u_cell := p\<rparr>)\<rparr>)
            \<and> list a s = Inr (u_cell ob)
            \<and> setList a q s = Inr (s\<lparr>objs := (objs s)(a \<mapsto> ob\<lparr>u_cell := q\<rparr>)\<rparr>))"
  using assms by (simp add: next_def list_def setNext_def setList_def)

theorem accessors_precondition_witness:
  "next 1 (mk_heap [1 \<mapsto> node_obj 1 (Some 100)] Map.empty Map.empty) = Inl BadAlloc
   \<and> setNext 1 None (mk_heap [1 \<mapsto> node_obj 1 (Some 100)] Map.empty Map.empty) = Inl BadAlloc
   \<and> list 1 (mk_heap [1 \<mapsto> node_obj 1 (Some 100)] Map.empty Map.empty) = Inl BadAlloc
   \<and> setList 1 (Some 7) (mk_heap [1 \<mapsto> node_obj 1 (Some 100)] Map.empty Map.empty) = Inl BadAlloc
   \<and> next 1 (mk_heap [1 \<mapsto> node_obj 0 (Some 2)] Map.empty Map.empty) = Inr (Some 2)
   \<and> list 1 (mk_heap [1 \<mapsto> node_obj 0 (Some 2)] Map.empty Map.empty) = Inr (Some 2)"
proof -
  have n1: "node_at (mk_heap [1 \<mapsto> node_obj 1 (Some 100)] Map.empty Map.empty) 1
              = Some (node_obj 1 (Some 100))"
    by (simp add: node_at_def mk_heap_def node_obj_def)
  have n0: "node_at (mk_heap [1 \<mapsto> node_obj 0 (Some 2)] Map.empty Map.empty) 1
              = Some (node_obj 0 (Some 2))"
    by (simp add: node_at_def mk_heap_def node_obj_def)
  have c1: "0 < use_count (node_obj 1 (Some 100))"
    by (simp add: use_count_def node_obj_def)
  have c0: "use_count (node_obj 0 (Some 2)) = 0"
    by (simp add: use_count_def node_obj_def)
  from accessors_precondition [OF n1, of None "Some 7"] c1
       accessors_precondition [OF n0, of None None] c0
  show ?thesis by (simp add: node_obj_def)
qed

text \<open>
  C9. A successful \<^verbatim>\<open>getRaw\<close> returns the head of the chain with the address of the
  free list written into the node's union while the node's count is still 0: afterwards
  \<^verbatim>\<open>list()\<close> succeeds on the node and returns this free list. Consequently, when the
  handle that \<^verbatim>\<open>get<T>()\<close> returns is destroyed, the release hook puts the node at the
  head of the free list it was checked out from, whatever free list held it earlier.
\<close>

theorem getRaw_records_owner:
  assumes "lists s pl = Some fl" "anchor fl = Some a" "node_at s a = Some ob" "refcnt ob = 0"
  shows "(case getRaw pl s of
            Inl e \<Rightarrow> False
          | Inr (p, s1) \<Rightarrow> p = Some a \<and> list a s1 = Inr (Some pl))
       \<and> (case FreeListBase_get pl ret s of
            Inl e \<Rightarrow> False
          | Inr s2 \<Rightarrow>
              (case Shp_dtor ret s2 of
                 Inl e \<Rightarrow> False
               | Inr s3 \<Rightarrow>
                   map_option anchor (lists s3 pl) = Some (Some a)
                   \<and> unmanaged s3 = unmanaged s @ [a]
                   \<and> map_option refcnt (objs s3 a) = Some 0))"
proof -
  let ?fl1 = "fl\<lparr>anchor := u_cell ob, avail := avail fl - 1\<rparr>"
  let ?s1 = "s\<lparr>objs := (objs s)(a \<mapsto> ob\<lparr>u_cell := Some pl\<rparr>),
                lists := (lists s)(pl \<mapsto> ?fl1)\<rparr>"
  have g: "getRaw pl s = Inr (Some a, ?s1)"
    using assms by (rule getRaw_head)
  have o: "objs s a = Some ob" "dyn ob = FreeListNodeObj"
    using assms(3) by (simp_all add: node_at_objs)
  have n1: "node_at ?s1 a = Some (ob\<lparr>u_cell := Some pl\<rparr>)"
    using o by (simp add: node_at_objs)
  have first: "list a ?s1 = Inr (Some pl)"
    using assms(4) by (simp add: list_def n1 use_count_zero_iff)
  let ?ob2 = "ob\<lparr>u_cell := Some pl, refcnt := 1\<rparr>"
  let ?s2 = "?s1\<lparr>shps := (shps s)(ret \<mapsto> Some a), objs := (objs s)(a \<mapsto> ?ob2)\<rparr>"
  have get: "FreeListBase_get pl ret s = Inr ?s2"
    using assms(4)
    by (simp add: FreeListBase_get_def g Shp_ptr_def incRef_nonnull_def incRef_def discard_def)
  have sh: "shps ?s2 ret = Some (Some a)"
    by simp
  have dt: "Shp_dtor ret ?s2 =
              Inr (?s2\<lparr>unmanaged := unmanaged s @ [a],
                        objs := (objs s)(a \<mapsto> ob\<lparr>u_cell := u_cell ob, refcnt := 0\<rparr>),
                        lists := (lists s)(pl \<mapsto> fl\<lparr>anchor := Some a, avail := avail fl - 1 + 1\<rparr>),
                        shps := (shps s)(ret := None)\<rparr>)"
    using decRef_last [of ?s2 a ?ob2]
      unmanage_node [of "?s2\<lparr>objs := (objs ?s2)(a \<mapsto> ?ob2\<lparr>refcnt := 0\<rparr>)\<rparr>" a
                        "?ob2\<lparr>refcnt := 0\<rparr>" pl ?fl1] o
    by (simp add: Shp_dtor_def Shp_get_def decRef_nonnull_def discard_def)
  show ?thesis
    using g first get dt by simp
qed

theorem getRaw_records_owner_witness:
  "(case put 100 (Some 1) two_lists of
      Inl e \<Rightarrow> False
    | Inr h1 \<Rightarrow>
        (case getRaw 100 h1 of
           Inl e \<Rightarrow> False
         | Inr (p, h2) \<Rightarrow> p = Some 1 \<and> put 200 (Some 1) h2 = Inr moved_node))
   \<and> (case getRaw 200 moved_node of
        Inl e \<Rightarrow> False
      | Inr (p, s1) \<Rightarrow> p = Some 1 \<and> list 1 s1 = Inr (Some 200))
   \<and> (case FreeListBase_get 200 10 moved_node of
        Inl e \<Rightarrow> False
      | Inr s2 \<Rightarrow>
          (case Shp_dtor 10 s2 of
             Inl e \<Rightarrow> False
           | Inr s3 \<Rightarrow>
               map_option anchor (lists s3 200) = Some (Some 1)
               \<and> unmanaged s3 = unmanaged moved_node @ [1]
               \<and> map_option refcnt (objs s3 1) = Some 0))"
proof -
  have l: "lists moved_node 200 = Some \<lparr>anchor = Some 1, avail = 1\<rparr>"
    by (simp add: moved_node_def mk_heap_def)
  have a: "anchor \<lparr>anchor = Some 1, avail = 1\<rparr> = Some 1"
    by simp
  have n: "node_at moved_node 1 = Some (node_obj 0 None)"
    by (simp add: moved_node_def mk_heap_def node_at_def node_obj_def)
  have c: "refcnt (node_obj 0 None) = 0"
    by (simp add: node_obj_def)
  have hist: "case put 100 (Some 1) two_lists of
      Inl e \<Rightarrow> False
    | Inr h1 \<Rightarrow>
        (case getRaw 100 h1 of
           Inl e \<Rightarrow> False
         | Inr (p, h2) \<Rightarrow> p = Some 1 \<and> put 200 (Some 1) h2 = Inr moved_node)"
    by (simp add: two_lists_def moved_node_def mk_heap_def node_obj_def new_list_def put_def
          getRaw_def next_def setNext_def setList_def node_at_def use_count_def)
  from getRaw_records_owner [OF l a n c, of 10] hist
  show ?thesis by blast
qed

section \<open>The advisory counter\<close>

lemma is_chain_frame:
  "\<forall>b \<in> set as. objs s' b = objs s b \<Longrightarrow> is_chain s' p as = is_chain s p as"
proof (induction as arbitrary: p)
  case Nil
  then show ?case by simp
next
  case (Cons a as)
  then have "node_at s' a = node_at s a"
    by (simp add: node_at_def)
  with Cons show ?case
    by (simp split: option.splits)
qed

lemma chain_nodes_is_chain:
  "is_chain s p as \<Longrightarrow> distinct as \<Longrightarrow> set seen \<inter> set as = {} \<Longrightarrow> length as < k \<Longrightarrow>
     chain_nodes k s p seen = seen @ as"
proof (induction as arbitrary: k p seen)
  case Nil
  then show ?case by (cases k) simp_all
next
  case (Cons a as)
  from Cons.prems(4) obtain k' where k: "k = Suc k'" "length as < k'"
    by (cases k) simp_all
  from Cons.prems(1) obtain ob where o: "p = Some a" "node_at s a = Some ob" "is_chain s (u_cell ob) as"
    by (auto split: option.splits)
  have "chain_nodes k' s (u_cell ob) (seen @ [a]) = (seen @ [a]) @ as"
    using Cons.prems(2,3) k(2) by (intro Cons.IH [OF o(3)]) auto
  then show ?case
    using o k Cons.prems(3) by simp
qed

lemma put_keeps_chain:
  assumes "lists s pl = Some fl" "is_chain s (anchor fl) as" "a \<notin> set as"
    "node_at s a = Some ob" "refcnt ob = 0"
  shows "\<exists>s'. put pl (Some a) s = Inr s'
            \<and> lists s' pl = Some (fl\<lparr>anchor := Some a, avail := avail fl + 1\<rparr>)
            \<and> is_chain s' (Some a) (a # as)
            \<and> (\<forall>b. (\<exists>x. node_at s b = Some x \<and> refcnt x = 0)
                    \<longrightarrow> (\<exists>x. node_at s' b = Some x \<and> refcnt x = 0))"
proof -
  let ?s1 = "s\<lparr>objs := (objs s)(a \<mapsto> ob\<lparr>u_cell := anchor fl\<rparr>),
                lists := (lists s)(pl \<mapsto> fl\<lparr>anchor := Some a, avail := avail fl + 1\<rparr>)\<rparr>"
  have p: "put pl (Some a) s = Inr ?s1"
    using assms(1,4,5) by (rule put_free_node)
  have o: "objs s a = Some ob" "dyn ob = FreeListNodeObj"
    using assms(4) by (simp_all add: node_at_objs)
  have n: "node_at ?s1 a = Some (ob\<lparr>u_cell := anchor fl\<rparr>)"
    using o by (simp add: node_at_objs)
  have "is_chain ?s1 (anchor fl) as = is_chain s (anchor fl) as"
    using assms(3) by (intro is_chain_frame) auto
  then have c: "is_chain ?s1 (Some a) (a # as)"
    using n assms(2,5) by simp
  have z: "\<forall>b. (\<exists>x. node_at s b = Some x \<and> refcnt x = 0)
                    \<longrightarrow> (\<exists>x. node_at ?s1 b = Some x \<and> refcnt x = 0)"
    using o assms(5) by (auto simp: node_at_objs)
  show ?thesis
    using p c z by simp
qed

lemma getRaw_keeps_chain:
  assumes "lists s pl = Some fl" "is_chain s (anchor fl) as" "distinct as"
  shows "\<exists>p s' fl'. getRaw pl s = Inr (p, s')
            \<and> p = (case as of [] \<Rightarrow> None | a # as' \<Rightarrow> Some a)
            \<and> lists s' pl = Some fl'
            \<and> avail fl' = (if as = [] then avail fl else avail fl - 1)
            \<and> is_chain s' (anchor fl') (tl as)
            \<and> (\<forall>b. (\<exists>x. node_at s b = Some x \<and> refcnt x = 0)
                    \<longrightarrow> (\<exists>x. node_at s' b = Some x \<and> refcnt x = 0))"
proof (cases as)
  case Nil
  with assms have "anchor fl = None" by simp
  with assms(1) have "getRaw pl s = Inr (None, s)" by (rule getRaw_empty)
  with Nil assms show ?thesis by simp
next
  case (Cons a as')
  with assms(2) obtain ob where h: "anchor fl = Some a" "node_at s a = Some ob"
    "refcnt ob = 0" "is_chain s (u_cell ob) as'"
    by (auto split: option.splits)
  let ?s1 = "s\<lparr>objs := (objs s)(a \<mapsto> ob\<lparr>u_cell := Some pl\<rparr>),
                lists := (lists s)(pl \<mapsto> fl\<lparr>anchor := u_cell ob, avail := avail fl - 1\<rparr>)\<rparr>"
  have g: "getRaw pl s = Inr (Some a, ?s1)"
    using assms(1) h(1-3) by (rule getRaw_head)
  have o: "objs s a = Some ob" "dyn ob = FreeListNodeObj"
    using h(2) by (simp_all add: node_at_objs)
  have "is_chain ?s1 (u_cell ob) as' = is_chain s (u_cell ob) as'"
    using assms(3) Cons by (intro is_chain_frame) auto
  then have c: "is_chain ?s1 (u_cell ob) as'"
    using h(4) by simp
  have z: "\<forall>b. (\<exists>x. node_at s b = Some x \<and> refcnt x = 0)
                    \<longrightarrow> (\<exists>x. node_at ?s1 b = Some x \<and> refcnt x = 0)"
    using o h(3) by (auto simp: node_at_objs)
  show ?thesis
    using g c z Cons by simp
qed

lemma run_poolops_chain:
  "lists s pl = Some fl \<Longrightarrow> is_chain s (anchor fl) as \<Longrightarrow> distinct as \<Longrightarrow>
   avail fl = of_nat (length as) \<Longrightarrow>
   \<forall>a. Put a \<in> set ops \<longrightarrow> (\<exists>ob. node_at s a = Some ob \<and> refcnt ob = 0) \<Longrightarrow>
   fresh_puts as ops \<Longrightarrow>
     \<exists>s' fl'. run_poolops pl ops s = Inr s' \<and> lists s' pl = Some fl'
            \<and> is_chain s' (anchor fl') (chain_after as ops)
            \<and> distinct (chain_after as ops)
            \<and> avail fl' = of_nat (length (chain_after as ops))"
proof (induction ops arbitrary: s fl as)
  case Nil
  then show ?case by simp
next
  case (Cons x ops)
  show ?case
  proof (cases x)
    case (Put a)
    from Cons.prems(5) Put obtain ob where ob: "node_at s a = Some ob" "refcnt ob = 0"
      by auto
    from Cons.prems(6) Put have f: "a \<notin> set as" "fresh_puts (a # as) ops"
      by simp_all
    from put_keeps_chain [OF Cons.prems(1,2) f(1) ob]
    obtain s1 where s1: "put pl (Some a) s = Inr s1"
      "lists s1 pl = Some (fl\<lparr>anchor := Some a, avail := avail fl + 1\<rparr>)"
      "is_chain s1 (Some a) (a # as)"
      "\<forall>b. (\<exists>x. node_at s b = Some x \<and> refcnt x = 0)
             \<longrightarrow> (\<exists>x. node_at s1 b = Some x \<and> refcnt x = 0)"
      by blast
    have z: "\<forall>b. Put b \<in> set ops \<longrightarrow> (\<exists>ob. node_at s1 b = Some ob \<and> refcnt ob = 0)"
      using Cons.prems(5) s1(4) by simp
    have "\<exists>s' fl'. run_poolops pl ops s1 = Inr s' \<and> lists s' pl = Some fl'
            \<and> is_chain s' (anchor fl') (chain_after (a # as) ops)
            \<and> distinct (chain_after (a # as) ops)
            \<and> avail fl' = of_nat (length (chain_after (a # as) ops))"
      using s1(3) f(1) Cons.prems(3,4)
      by (intro Cons.IH [OF s1(2) _ _ _ z f(2)]) simp_all
    then show ?thesis
      using Put s1(1) by simp
  next
    case GetRaw
    from getRaw_keeps_chain [OF Cons.prems(1,2,3)]
    obtain p s1 fl1 where s1: "getRaw pl s = Inr (p, s1)"
      and fl1: "lists s1 pl = Some fl1" "avail fl1 = (if as = [] then avail fl else avail fl - 1)"
      and c: "is_chain s1 (anchor fl1) (tl as)"
      and s1z: "\<forall>b. (\<exists>x. node_at s b = Some x \<and> refcnt x = 0)
             \<longrightarrow> (\<exists>x. node_at s1 b = Some x \<and> refcnt x = 0)"
      by blast
    have d: "distinct (tl as)"
      using Cons.prems(3) by (simp add: distinct_tl)
    have v: "avail fl1 = of_nat (length (tl as))"
      using fl1(2) Cons.prems(4) by (cases as) simp_all
    have z: "\<forall>b. Put b \<in> set ops \<longrightarrow> (\<exists>ob. node_at s1 b = Some ob \<and> refcnt ob = 0)"
      using Cons.prems(5) s1z by simp
    have f: "fresh_puts (tl as) ops"
      using Cons.prems(6) GetRaw by simp
    from Cons.IH [OF fl1(1) c d v z f]
    show ?thesis
      using GetRaw s1 by (simp add: discard_def)
  qed
qed

text \<open>
  C10 (as amended). Start from a freshly constructed free list (empty chain, counter 0)
  and run \<^verbatim>\<open>put\<close> and \<^verbatim>\<open>getRaw\<close> calls, where every node that is put has count 0
  and is not in the chain at the moment of its \<^verbatim>\<open>put\<close>. Then every call returns, the
  chain is the list that the calls build (a \<^verbatim>\<open>put\<close> adds its node in front, a
  \<^verbatim>\<open>getRaw\<close> removes the first node if there is one), all its nodes are different, and
  \<^verbatim>\<open>avail_\<close> is the length of the chain as a 32-bit unsigned number.
\<close>

theorem avail_counts_chain:
  assumes "lists s pl = Some new_list"
    "\<forall>a. Put a \<in> set ops \<longrightarrow> (\<exists>ob. node_at s a = Some ob \<and> refcnt ob = 0)"
    "fresh_puts [] ops"
  shows "\<exists>s' fl. run_poolops pl ops s = Inr s' \<and> lists s' pl = Some fl
            \<and> is_chain s' (anchor fl) (chain_after [] ops)
            \<and> distinct (chain_after [] ops)
            \<and> chain_nodes (Suc (length (chain_after [] ops))) s' (anchor fl) [] = chain_after [] ops
            \<and> avail fl = of_nat (length (chain_after [] ops))"
proof -
  have "\<exists>s' fl'. run_poolops pl ops s = Inr s' \<and> lists s' pl = Some fl'
            \<and> is_chain s' (anchor fl') (chain_after [] ops)
            \<and> distinct (chain_after [] ops)
            \<and> avail fl' = of_nat (length (chain_after [] ops))"
    by (rule run_poolops_chain [OF assms(1) _ _ _ assms(2,3)]) (simp_all add: new_list_def)
  then obtain s' fl where r: "run_poolops pl ops s = Inr s'" "lists s' pl = Some fl"
    "is_chain s' (anchor fl) (chain_after [] ops)" "distinct (chain_after [] ops)"
    "avail fl = of_nat (length (chain_after [] ops))"
    by blast
  have "chain_nodes (Suc (length (chain_after [] ops))) s' (anchor fl) [] = [] @ chain_after [] ops"
    using r(3,4) by (intro chain_nodes_is_chain) simp_all
  with r show ?thesis by simp
qed

theorem avail_counts_chain_witness:
  "\<exists>s' fl. run_poolops 100 [Put 1, Put 2, GetRaw]
              (mk_heap [1 \<mapsto> node_obj 0 None, 2 \<mapsto> node_obj 0 None] [100 \<mapsto> new_list] Map.empty)
              = Inr s'
          \<and> lists s' 100 = Some fl \<and> is_chain s' (anchor fl) [1]
          \<and> distinct [1::nat]
          \<and> chain_nodes (Suc (length [1::nat])) s' (anchor fl) [] = [1]
          \<and> avail fl = of_nat (length [1::nat])"
proof -
  let ?s = "mk_heap [1 \<mapsto> node_obj 0 None, 2 \<mapsto> node_obj 0 None] [100 \<mapsto> new_list] Map.empty"
  have l: "lists ?s 100 = Some new_list"
    by (simp add: mk_heap_def)
  have z: "\<forall>a. Put a \<in> set [Put 1, Put 2, GetRaw]
             \<longrightarrow> (\<exists>ob. node_at ?s a = Some ob \<and> refcnt ob = 0)"
    by (auto simp: mk_heap_def node_at_def node_obj_def)
  have f: "fresh_puts [] [Put 1, Put 2, GetRaw]"
    by simp
  have ca: "chain_after [] [Put 1, Put 2, GetRaw] = [1]"
    by simp
  from avail_counts_chain [OF l z f] show ?thesis
    unfolding ca .
qed

theorem avail_counts_chain_counterexample:
  "run_poolops 100 [Put 1, Put 1] (mk_heap [1 \<mapsto> node_obj 0 None] [100 \<mapsto> new_list] Map.empty)
     = Inr (mk_heap [1 \<mapsto> node_obj 0 (Some 1)] [100 \<mapsto> \<lparr>anchor = Some 1, avail = 2\<rparr>] Map.empty)
   \<and> chain_nodes 3 (mk_heap [1 \<mapsto> node_obj 0 (Some 1)] [100 \<mapsto> \<lparr>anchor = Some 1, avail = 2\<rparr>]
                      Map.empty) (Some 1) [] = [1]
   \<and> \<not> is_chain (mk_heap [1 \<mapsto> node_obj 0 (Some 1)] [100 \<mapsto> \<lparr>anchor = Some 1, avail = 2\<rparr>]
                      Map.empty) (Some 1) [1, 1]"
  by (simp add: mk_heap_def node_obj_def new_list_def put_def setNext_def node_at_def use_count_def
        numeral_3_eq_3)

end
